theory Spec2Isabelle
  imports Main "HOL-Library.Word"
begin

section \<open>Python values used by the store\<close>

text \<open>
  A Python \<open>bytes\<close> object is a list of 8-bit words.  A Python \<open>str\<close> is a list of
  Unicode code points, so that \<open>length\<close> is what Python's \<open>len\<close> counts on a
  \<open>str\<close>: characters, not bytes.  Python integers are unbounded: \<open>int\<close>; file offsets
  and lengths, which are never negative, are \<open>nat\<close>.
\<close>

type_synonym byte = "8 word"
type_synonym bytes = "byte list"
type_synonym str = "nat list"

text \<open>
  The exceptions the two modules can raise: \<open>struct.error\<close> (from \<open>struct.pack\<close> and
  \<open>struct.unpack\<close>), \<open>UnicodeEncodeError\<close> (from \<open>str.encode\<close>),
  \<open>UnicodeDecodeError\<close> (from \<open>bytes.decode\<close>) and \<open>ValueError\<close> (an operation on a closed
  file object).
\<close>

datatype error = StructError | UnicodeEncodeError | UnicodeDecodeError | ValueError

subsection \<open>\<open>str.encode()\<close> and \<open>bytes.decode()\<close>: strict UTF-8\<close>

text \<open>
  \<open>str.encode()\<close> writes each character in one to four bytes and raises
  \<open>UnicodeEncodeError\<close> on a surrogate (U+D800 to U+DFFF); a number from \<open>0x110000\<close> on
  is no character of a Python string, and the model refuses it the same way.
\<close>

definition encode_char :: "nat \<Rightarrow> error + bytes" where
  "encode_char c =
     (if c < 0x80 then Inr [of_nat c]
      else if c < 0x800 then Inr [of_nat (0xC0 + c div 64), of_nat (0x80 + c mod 64)]
      else if c < 0x10000 then
        (if 0xD800 \<le> c \<and> c < 0xE000 then Inl UnicodeEncodeError
         else Inr [of_nat (0xE0 + c div 4096), of_nat (0x80 + c div 64 mod 64),
                   of_nat (0x80 + c mod 64)])
      else if c < 0x110000 then
        Inr [of_nat (0xF0 + c div 262144), of_nat (0x80 + c div 4096 mod 64),
             of_nat (0x80 + c div 64 mod 64), of_nat (0x80 + c mod 64)]
      else Inl UnicodeEncodeError)"

fun encode :: "str \<Rightarrow> error + bytes" where
  "encode [] = Inr []"
| "encode (c # cs) =
     (case encode_char c of
        Inl e \<Rightarrow> Inl e
      | Inr b \<Rightarrow> (case encode cs of Inl e \<Rightarrow> Inl e | Inr bs \<Rightarrow> Inr (b @ bs)))"

text \<open>
  \<open>bytes.decode()\<close> raises \<open>UnicodeDecodeError\<close> on a byte that starts no character, on a
  sequence that ends early or continues with a byte outside \<open>0x80 .. 0xBF\<close>, on an
  encoding longer than needed, on a surrogate and above U+10FFFF.  \<open>first_char\<close> reads
  the first character of \<open>b # bs\<close>: the character and the number of bytes it takes of
  \<open>bs\<close>.
\<close>

definition is_cont :: "byte \<Rightarrow> bool" where
  "is_cont b = (0x80 \<le> b \<and> b < 0xC0)"

definition cont_bits :: "byte \<Rightarrow> nat" where
  "cont_bits b = unat b - 0x80"

definition push_char :: "nat \<Rightarrow> error + str \<Rightarrow> error + str" where
  "push_char c r = (case r of Inl e \<Rightarrow> Inl e | Inr cs \<Rightarrow> Inr (c # cs))"

definition first_char :: "byte \<Rightarrow> bytes \<Rightarrow> (nat \<times> nat) option" where
  "first_char b bs =
     (if b < 0x80 then Some (unat b, 0)
      else if 0xC2 \<le> b \<and> b < 0xE0 then
        (case bs of
           b1 # r \<Rightarrow>
             if is_cont b1 then Some ((unat b - 0xC0) * 64 + cont_bits b1, 1) else None
         | _ \<Rightarrow> None)
      else if 0xE0 \<le> b \<and> b < 0xF0 then
        (case bs of
           b1 # b2 # r \<Rightarrow>
             (let c = (unat b - 0xE0) * 4096 + cont_bits b1 * 64 + cont_bits b2
              in if is_cont b1 \<and> is_cont b2 \<and> 0x800 \<le> c \<and> \<not> (0xD800 \<le> c \<and> c < 0xE000)
                 then Some (c, 2) else None)
         | _ \<Rightarrow> None)
      else if 0xF0 \<le> b \<and> b < 0xF5 then
        (case bs of
           b1 # b2 # b3 # r \<Rightarrow>
             (let c = (unat b - 0xF0) * 262144 + cont_bits b1 * 4096 + cont_bits b2 * 64
                        + cont_bits b3
              in if is_cont b1 \<and> is_cont b2 \<and> is_cont b3 \<and> 0x10000 \<le> c \<and> c < 0x110000
                 then Some (c, 3) else None)
         | _ \<Rightarrow> None)
      else None)"

function decode :: "bytes \<Rightarrow> error + str" where
  "decode [] = Inr []"
| "decode (b # bs) =
     (case first_char b bs of
        None \<Rightarrow> Inl UnicodeDecodeError
      | Some (c, n) \<Rightarrow> push_char c (decode (drop n bs)))"
  by pat_completeness auto
termination
  by (relation "measure length") auto

subsection \<open>The \<open>struct\<close> formats used: \<open>"III"\<close> and \<open>"{n}s{m}s"\<close>\<close>

text \<open>
  \<open>struct.pack("III", a, b, c)\<close> writes three unsigned 32-bit integers, four bytes each,
  in the byte order of the host; the model fixes little-endian, the order of the usual
  hosts.  An argument outside \<open>0 .. 2^32 - 1\<close> raises \<open>struct.error\<close>.
\<close>

definition pack_I :: "int \<Rightarrow> error + bytes" where
  "pack_I x =
     (if 0 \<le> x \<and> x < 2 ^ 32
      then Inr [of_int (x mod 256), of_int (x div 256 mod 256),
                of_int (x div 65536 mod 256), of_int (x div 16777216 mod 256)]
      else Inl StructError)"

definition unpack_I :: "bytes \<Rightarrow> int" where
  "unpack_I bs = foldr (\<lambda>b acc. uint b + 256 * acc) bs 0"

definition pack_III :: "int \<Rightarrow> int \<Rightarrow> int \<Rightarrow> error + bytes" where
  "pack_III a b c =
     (case pack_I a of
        Inl e \<Rightarrow> Inl e
      | Inr x \<Rightarrow>
          (case pack_I b of
             Inl e \<Rightarrow> Inl e
           | Inr y \<Rightarrow> (case pack_I c of Inl e \<Rightarrow> Inl e | Inr z \<Rightarrow> Inr (x @ y @ z))))"

text \<open>\<open>struct.unpack("III", data)\<close> requires a buffer of exactly 12 bytes.\<close>

definition unpack_III :: "bytes \<Rightarrow> error + (int \<times> int \<times> int)" where
  "unpack_III data =
     (if length data \<noteq> 12 then Inl StructError
      else Inr (unpack_I (take 4 data), unpack_I (take 4 (drop 4 data)),
                unpack_I (take 4 (drop 8 data))))"

text \<open>
  The format character \<open>s\<close> with count \<open>n\<close>: packing truncates the argument to \<open>n\<close>
  bytes or pads it with null bytes up to \<open>n\<close>; unpacking requires a buffer of exactly
  the size of the format.
\<close>

definition pack_s :: "nat \<Rightarrow> bytes \<Rightarrow> bytes" where
  "pack_s n b = take n b @ replicate (n - length b) 0"

definition pack_ss :: "nat \<Rightarrow> nat \<Rightarrow> bytes \<Rightarrow> bytes \<Rightarrow> bytes" where
  "pack_ss n m a b = pack_s n a @ pack_s m b"

definition unpack_ss :: "nat \<Rightarrow> nat \<Rightarrow> bytes \<Rightarrow> error + (bytes \<times> bytes)" where
  "unpack_ss n m data =
     (if length data \<noteq> n + m then Inl StructError
      else Inr (take n data, drop n data))"

section \<open>\<open>format.py\<close>\<close>

text \<open>
  Modelled from the spec: the module \<open>constants\<close>, which defines \<open>HEADER_SIZE\<close>, is not
  among the sources; the spec gives the header as the fixed 12-byte prefix of a record,
  the size of the format \<open>"III"\<close>.
\<close>

definition HEADER_SIZE :: nat where
  "HEADER_SIZE = 12"

definition encode_header :: "int \<Rightarrow> int \<Rightarrow> int \<Rightarrow> error + bytes" where
  "encode_header timestamp key_size value_size = pack_III timestamp key_size value_size"

definition decode_header :: "bytes \<Rightarrow> error + (int \<times> int \<times> int)" where
  "decode_header data = unpack_III data"

text \<open>
  \<open>encode_kv\<close>: the arguments \<open>key.encode()\<close> and \<open>value.encode()\<close> are evaluated first,
  then packed with the counts \<open>len(key)\<close> and \<open>len(value)\<close>, the numbers of characters of
  the two strings; the header carries the same two counts.
\<close>

definition encode_kv :: "int \<Rightarrow> str \<Rightarrow> str \<Rightarrow> error + (nat \<times> bytes)" where
  "encode_kv timestamp key val =
     (case encode key of
        Inl e \<Rightarrow> Inl e
      | Inr kb \<Rightarrow>
          (case encode val of
             Inl e \<Rightarrow> Inl e
           | Inr vb \<Rightarrow>
               (let record_in_bin = pack_ss (length key) (length val) kb vb
                in case encode_header timestamp (int (length key)) (int (length val)) of
                     Inl e \<Rightarrow> Inl e
                   | Inr header \<Rightarrow>
                       (let record_with_header = header @ record_in_bin
                        in Inr (length record_with_header, record_with_header)))))"

definition decode_kv :: "bytes \<Rightarrow> error + (int \<times> str \<times> str)" where
  "decode_kv data =
     (case decode_header (take HEADER_SIZE data) of
        Inl e \<Rightarrow> Inl e
      | Inr (timestamp, key_size, value_size) \<Rightarrow>
          (case unpack_ss (nat key_size) (nat value_size) (drop HEADER_SIZE data) of
             Inl e \<Rightarrow> Inl e
           | Inr (key, val) \<Rightarrow>
               (case decode key of
                  Inl e \<Rightarrow> Inl e
                | Inr k \<Rightarrow> (case decode val of Inl e \<Rightarrow> Inl e | Inr v \<Rightarrow> Inr (timestamp, k, v)))))"

section \<open>The file object\<close>

text \<open>
  The store keeps one binary file object, opened in mode \<open>rb+\<close>: its contents, its
  position, and whether it has been closed.  Every method but \<open>close\<close> raises
  \<open>ValueError\<close> on a closed file; \<open>close\<close> on a closed file does nothing.  \<open>read(n)\<close>
  returns the bytes from the position on, at most \<open>n\<close> and fewer when the file ends
  first; \<open>write\<close> overwrites from the position on and extends the file.
\<close>

record file_obj =
  contents :: bytes
  position :: nat
  closed :: bool

definition f_seek :: "nat \<Rightarrow> file_obj \<Rightarrow> error + (nat \<times> file_obj)" where
  "f_seek offset f =
     (if closed f then Inl ValueError else Inr (offset, f\<lparr>position := offset\<rparr>))"

definition f_seek_end :: "file_obj \<Rightarrow> error + (nat \<times> file_obj)" where
  "f_seek_end f =
     (if closed f then Inl ValueError
      else Inr (length (contents f), f\<lparr>position := length (contents f)\<rparr>))"

definition f_tell :: "file_obj \<Rightarrow> error + (nat \<times> file_obj)" where
  "f_tell f = (if closed f then Inl ValueError else Inr (position f, f))"

definition f_read :: "nat \<Rightarrow> file_obj \<Rightarrow> error + (bytes \<times> file_obj)" where
  "f_read n f =
     (if closed f then Inl ValueError
      else (let out = take n (drop (position f) (contents f))
            in Inr (out, f\<lparr>position := position f + length out\<rparr>)))"

definition f_write :: "bytes \<Rightarrow> file_obj \<Rightarrow> error + (nat \<times> file_obj)" where
  "f_write b f =
     (if closed f then Inl ValueError
      else if b = [] then Inr (0, f)
      else Inr (length b,
             f\<lparr>contents :=
                  take (position f) (contents f)
                  @ replicate (position f - length (contents f)) 0
                  @ b
                  @ drop (position f + length b) (contents f),
               position := position f + length b\<rparr>))"

definition f_close :: "file_obj \<Rightarrow> unit \<times> file_obj" where
  "f_close f = ((), f\<lparr>closed := True\<rparr>)"

section \<open>\<open>disk_store.py\<close>\<close>

text \<open>
  The state of a \<open>DiskStorage\<close>: the file object and the dictionary \<open>key_dir\<close> from keys
  to offsets.  A method returns its result, or the exception it raised, together with the
  state it leaves behind: an exception does not undo what the method did before it.
\<close>

record DiskStorage =
  file_store :: file_obj
  key_dir :: "str \<rightharpoonup> nat"

text \<open>
  The loop of \<open>__init_db\<close>.  Each round reads a header and the body it declares at the
  position of the file, decodes them, records the key, and seeks to the next record.
\<close>

function scan_loop :: "nat \<Rightarrow> nat \<Rightarrow> DiskStorage \<Rightarrow> (error + unit) \<times> DiskStorage" where
  "scan_loop current_file_pointer total_file_size s =
     (if current_file_pointer < total_file_size then
        (case f_read HEADER_SIZE (file_store s) of
           Inl e \<Rightarrow> (Inl e, s)
         | Inr (header_b, f1) \<Rightarrow>
             (case decode_header header_b of
                Inl e \<Rightarrow> (Inl e, s\<lparr>file_store := f1\<rparr>)
              | Inr (timestamp, k_sz, v_sz) \<Rightarrow>
                  (case f_read (nat (k_sz + v_sz)) f1 of
                     Inl e \<Rightarrow> (Inl e, s\<lparr>file_store := f1\<rparr>)
                   | Inr (kv_data_b, f2) \<Rightarrow>
                       (case decode_kv (header_b @ kv_data_b) of
                          Inl e \<Rightarrow> (Inl e, s\<lparr>file_store := f2\<rparr>)
                        | Inr (t, k, v) \<Rightarrow>
                            (let s' = s\<lparr>file_store := f2,
                                         key_dir := (key_dir s)(k \<mapsto> current_file_pointer)\<rparr>
                             in case f_seek (current_file_pointer + HEADER_SIZE
                                             + nat k_sz + nat v_sz) f2 of
                                  Inl e \<Rightarrow> (Inl e, s')
                                | Inr (p, f3) \<Rightarrow>
                                    scan_loop p total_file_size (s'\<lparr>file_store := f3\<rparr>))))))
      else (Inr (), s))"
  by pat_completeness auto
termination
  by (relation "measure (\<lambda>(c, t, s). t - c)")
     (auto simp: f_seek_def HEADER_SIZE_def split: if_splits)

declare scan_loop.simps [simp del]

definition DiskStorage_init_db :: "DiskStorage \<Rightarrow> (error + unit) \<times> DiskStorage" where
  "DiskStorage_init_db s =
     (case f_seek_end (file_store s) of
        Inl e \<Rightarrow> (Inl e, s)
      | Inr (_, f1) \<Rightarrow>
          (case f_tell f1 of
             Inl e \<Rightarrow> (Inl e, s\<lparr>file_store := f1\<rparr>)
           | Inr (total_file_size, f2) \<Rightarrow>
               if total_file_size < 10 then (Inr (), s\<lparr>file_store := f2\<rparr>)
               else (case f_seek 0 f2 of
                       Inl e \<Rightarrow> (Inl e, s\<lparr>file_store := f2\<rparr>)
                     | Inr (current_file_pointer, f3) \<Rightarrow>
                         scan_loop current_file_pointer total_file_size
                           (s\<lparr>file_store := f3\<rparr>))))"

text \<open>
  \<open>__init__\<close>: the file is created empty when it does not exist (\<open>None\<close>), opened, and
  scanned.  An exception of the scan leaves the constructor: no object is returned.
\<close>

definition DiskStorage_init :: "bytes option \<Rightarrow> error + DiskStorage" where
  "DiskStorage_init on_disk =
     (let s = \<lparr>file_store = \<lparr>contents = (case on_disk of None \<Rightarrow> [] | Some b \<Rightarrow> b),
                              position = 0, closed = False\<rparr>,
                key_dir = Map.empty\<rparr>
      in case DiskStorage_init_db s of
           (Inl e, _) \<Rightarrow> Inl e
         | (Inr _, s') \<Rightarrow> Inr s')"

text \<open>\<open>set\<close>; \<open>now\<close> is the value of \<open>int(time.time())\<close> at the call.\<close>

definition DiskStorage_set ::
    "DiskStorage \<Rightarrow> int \<Rightarrow> str \<Rightarrow> str \<Rightarrow> (error + unit) \<times> DiskStorage" where
  "DiskStorage_set s now key val =
     (case f_seek_end (file_store s) of
        Inl e \<Rightarrow> (Inl e, s)
      | Inr (_, f1) \<Rightarrow>
          (case f_tell f1 of
             Inl e \<Rightarrow> (Inl e, s\<lparr>file_store := f1\<rparr>)
           | Inr (total_file_size_before_key_set, f2) \<Rightarrow>
               (case encode_kv now key val of
                  Inl e \<Rightarrow> (Inl e, s\<lparr>file_store := f2\<rparr>)
                | Inr encoded_data \<Rightarrow>
                    (case f_write (snd encoded_data) f2 of
                       Inl e \<Rightarrow> (Inl e, s\<lparr>file_store := f2\<rparr>)
                     | Inr (_, f3) \<Rightarrow>
                         (Inr (), s\<lparr>file_store := f3,
                                     key_dir := (key_dir s)(key \<mapsto>
                                       total_file_size_before_key_set)\<rparr>)))))"

text \<open>\<open>get\<close>: a key that is not in \<open>key_dir\<close> gives the empty string.\<close>

definition DiskStorage_get :: "DiskStorage \<Rightarrow> str \<Rightarrow> (error + str) \<times> DiskStorage" where
  "DiskStorage_get s key =
     (case key_dir s key of
        None \<Rightarrow> (Inr [], s)
      | Some offset_to_jump_to \<Rightarrow>
          (case f_seek offset_to_jump_to (file_store s) of
             Inl e \<Rightarrow> (Inl e, s)
           | Inr (_, f1) \<Rightarrow>
               (case f_read HEADER_SIZE f1 of
                  Inl e \<Rightarrow> (Inl e, s\<lparr>file_store := f1\<rparr>)
                | Inr (header_b, f2) \<Rightarrow>
                    (case decode_header header_b of
                       Inl e \<Rightarrow> (Inl e, s\<lparr>file_store := f2\<rparr>)
                     | Inr (timestamp, key_size, value_size) \<Rightarrow>
                         (case f_seek (offset_to_jump_to + HEADER_SIZE) f2 of
                            Inl e \<Rightarrow> (Inl e, s\<lparr>file_store := f2\<rparr>)
                          | Inr (_, f3) \<Rightarrow>
                              (case f_read (nat (key_size + value_size)) f3 of
                                 Inl e \<Rightarrow> (Inl e, s\<lparr>file_store := f3\<rparr>)
                               | Inr (kv_data_b, f4) \<Rightarrow>
                                   (case decode_kv (header_b @ kv_data_b) of
                                      Inl e \<Rightarrow> (Inl e, s\<lparr>file_store := f4\<rparr>)
                                    | Inr (t, k, v) \<Rightarrow>
                                        (Inr v, s\<lparr>file_store := f4\<rparr>))))))))"

definition DiskStorage_close :: "DiskStorage \<Rightarrow> (error + unit) \<times> DiskStorage" where
  "DiskStorage_close s =
     (case f_close (file_store s) of (_, f) \<Rightarrow> (Inr (), s\<lparr>file_store := f\<rparr>))"

section \<open>Notions used to state the properties\<close>

text \<open>
  A Python string literal of ASCII characters, as the list of its code points; a string
  with other characters is written as the list itself, \<open>[0xE9]\<close> for the one-character
  string U+00E9 (e with acute accent), two bytes in UTF-8.
\<close>

definition str_of :: "string \<Rightarrow> str" where
  "str_of cs = map of_char cs"

text \<open>The strings of ASCII characters: those each character of which is one byte in UTF-8.\<close>

definition is_ascii :: "str \<Rightarrow> bool" where
  "is_ascii s = list_all (\<lambda>c. c < 128) s"

text \<open>
  A log as a list of entries (timestamp, key, value): the bytes \<open>encode_kv\<close> returns for
  each, one after the other; the index a scan of these bytes is to build, each key at the
  offset of its last record; and the value of the last entry of a key.  An entry is
  well-formed when its timestamp and lengths fit the header and its strings are ASCII.
\<close>

type_synonym entry = "int \<times> str \<times> str"

definition record_of :: "entry \<Rightarrow> bytes" where
  "record_of e =
     (case e of (t, k, v) \<Rightarrow>
        (case encode_kv t k v of Inl _ \<Rightarrow> [] | Inr (n, data) \<Rightarrow> data))"

definition valid_entry :: "entry \<Rightarrow> bool" where
  "valid_entry e =
     (case e of (t, k, v) \<Rightarrow>
        is_ascii k \<and> is_ascii v \<and> 0 \<le> t \<and> t < 2 ^ 32
        \<and> length k < 2 ^ 32 \<and> length v < 2 ^ 32)"

fun log_of :: "entry list \<Rightarrow> bytes" where
  "log_of [] = []"
| "log_of (e # es) = record_of e @ log_of es"

fun index_from :: "nat \<Rightarrow> entry list \<Rightarrow> (str \<rightharpoonup> nat) \<Rightarrow> (str \<rightharpoonup> nat)" where
  "index_from off [] m = m"
| "index_from off (e # es) m =
     index_from (off + length (record_of e)) es (m(fst (snd e) \<mapsto> off))"

text \<open>A sequence of \<open>set\<close> calls, one per entry; an exception ends it.\<close>

fun set_all :: "DiskStorage \<Rightarrow> entry list \<Rightarrow> (error + unit) \<times> DiskStorage" where
  "set_all s [] = (Inr (), s)"
| "set_all s (e # es) =
     (case DiskStorage_set s (fst e) (fst (snd e)) (snd (snd e)) of
        (Inl x, s') \<Rightarrow> (Inl x, s')
      | (Inr _, s') \<Rightarrow> set_all s' es)"

fun last_value :: "entry list \<Rightarrow> str \<Rightarrow> str option" where
  "last_value [] key = None"
| "last_value (e # es) key =
     (case last_value es key of
        Some v \<Rightarrow> Some v
      | None \<Rightarrow> (if fst (snd e) = key then Some (snd (snd e)) else None))"

section \<open>The codec\<close>

lemmas codec_defs = encode_kv_def decode_kv_def encode_header_def decode_header_def
  pack_III_def unpack_III_def pack_I_def unpack_I_def pack_ss_def pack_s_def unpack_ss_def
  HEADER_SIZE_def encode_char_def first_char_def is_cont_def cont_bits_def push_char_def
  str_of_def

lemmas file_defs = f_seek_def f_seek_end_def f_tell_def f_read_def f_write_def f_close_def

lemmas store_defs = DiskStorage_init_def DiskStorage_init_db_def DiskStorage_set_def
  DiskStorage_get_def DiskStorage_close_def

subsection \<open>Headers\<close>

lemma uint_byte_of_int: "uint (of_int k :: byte) = k mod 256"
  by (simp add: uint_word_of_int_eq take_bit_eq_mod)

lemma le_bytes_int:
  fixes x :: int
  shows "x mod 256 + (256 * (x div 256 mod 256) +
         (65536 * (x div 65536 mod 256) + 16777216 * (x div 16777216))) = x"
proof -
  define a where "a = x div 256"
  define b where "b = a div 256"
  define c where "c = b div 256"
  have x: "x = 256 * a + x mod 256" by (simp add: a_def)
  have a: "a = 256 * b + a mod 256" by (simp add: b_def)
  have b: "b = 256 * c + b mod 256" by (simp add: c_def)
  have b': "x div 65536 = b" by (simp add: a_def b_def zdiv_zmult2_eq)
  have c': "x div 16777216 = c" by (simp add: a_def b_def c_def zdiv_zmult2_eq)
  show ?thesis
    unfolding b' c' a_def[symmetric] using x a b by linarith
qed

lemma unpack_pack_I:
  assumes "pack_I x = Inr b"
  shows "length b = 4" and "unpack_I b = x" and "0 \<le> x" and "x < 2 ^ 32"
proof -
  from assms have r: "0 \<le> x" "x < 2 ^ 32"
    and b: "b = [of_int (x mod 256), of_int (x div 256 mod 256),
                of_int (x div 65536 mod 256), of_int (x div 16777216 mod 256)]"
    by (auto simp: pack_I_def split: if_splits)
  show "length b = 4" by (simp add: b)
  show "0 \<le> x" "x < 2 ^ 32" by (rule r)+
  have "x div 16777216 < 256" using r by simp
  then show "unpack_I b = x" using r
    by (simp add: b unpack_I_def uint_byte_of_int le_bytes_int)
qed

text \<open>Header round-trip: a header that was encoded decodes to the three integers.\<close>

lemma encode_header_Inr:
  assumes "encode_header t k v = Inr h"
  shows "length h = 12" and "decode_header h = Inr (t, k, v)"
proof -
  from assms obtain x y z where p: "pack_I t = Inr x" "pack_I k = Inr y" "pack_I v = Inr z"
    and h: "h = x @ y @ z"
    by (auto simp: encode_header_def pack_III_def split: sum.splits)
  note l = unpack_pack_I(1)[OF p(1)] unpack_pack_I(1)[OF p(2)] unpack_pack_I(1)[OF p(3)]
  show "length h = 12" by (simp add: h l)
  show "decode_header h = Inr (t, k, v)"
    by (simp add: decode_header_def unpack_III_def h l
        unpack_pack_I(2)[OF p(1)] unpack_pack_I(2)[OF p(2)] unpack_pack_I(2)[OF p(3)])
qed

lemma encode_header_range:
  "encode_header t k v = Inr h \<Longrightarrow>
     0 \<le> t \<and> t < 2 ^ 32 \<and> 0 \<le> k \<and> k < 2 ^ 32 \<and> 0 \<le> v \<and> v < 2 ^ 32"
  by (auto simp: encode_header_def pack_III_def split: sum.splits dest: unpack_pack_I)

lemma encode_header_in_range:
  "0 \<le> t \<Longrightarrow> t < 2 ^ 32 \<Longrightarrow> 0 \<le> k \<Longrightarrow> k < 2 ^ 32 \<Longrightarrow> 0 \<le> v \<Longrightarrow> v < 2 ^ 32
   \<Longrightarrow> \<exists>h. encode_header t k v = Inr h"
  by (simp add: encode_header_def pack_III_def pack_I_def)

subsection \<open>Records\<close>

lemma length_pack_s: "length (pack_s n b) = n"
  by (simp add: pack_s_def)

lemma pack_s_exact: "length b = n \<Longrightarrow> pack_s n b = b"
  by (simp add: pack_s_def)

text \<open>
  What \<open>encode_kv\<close> returns when it returns: the header, then the key and value fields,
  which hold as many bytes as the strings have characters.
\<close>

lemma encode_kv_Inr:
  assumes "encode_kv t key val = Inr (n, data)"
  shows "\<exists>header ke ve. data = header @ pack_s (length key) ke @ pack_s (length val) ve
          \<and> length header = 12
          \<and> encode key = Inr ke \<and> encode val = Inr ve
          \<and> encode_header t (int (length key)) (int (length val)) = Inr header
          \<and> n = length data"
  using assms
  by (auto simp: encode_kv_def pack_ss_def Let_def split: sum.splits dest: encode_header_Inr(1))

subsection \<open>UTF-8\<close>

lemma unat_byte_of_nat: "x < 256 \<Longrightarrow> unat (of_nat x :: byte) = x"
  by (simp add: unat_of_nat)

lemma first_char_encode_char:
  assumes "encode_char c = Inr (b # bs)"
  shows "first_char b (bs @ rest) = Some (c, length bs)"
proof -
  consider (one) "c < 0x80" | (two) "0x80 \<le> c" "c < 0x800"
    | (three) "0x800 \<le> c" "c < 0x10000" "\<not> (0xD800 \<le> c \<and> c < 0xE000)"
    | (four) "0x10000 \<le> c" "c < 0x110000"
    using assms by (auto simp: encode_char_def split: if_splits)
  then show ?thesis
  proof cases
    case one
    then have "b = of_nat c" "bs = []" using assms by (auto simp: encode_char_def)
    moreover have "unat (of_nat c :: byte) = c" using one by (simp add: unat_byte_of_nat)
    ultimately show ?thesis using one
      by (simp add: first_char_def word_less_nat_alt)
  next
    case two
    let ?h = "c div 64" and ?l = "c mod 64"
    have b: "b = of_nat (0xC0 + ?h)" "bs = [of_nat (0x80 + ?l)]"
      using assms two by (auto simp: encode_char_def)
    have h: "2 \<le> ?h" "?h < 32" using two by simp_all
    have ub: "unat (of_nat (0xC0 + ?h) :: byte) = 0xC0 + ?h"
      by (rule unat_byte_of_nat) (use h in simp)
    have ul: "unat (of_nat (0x80 + ?l) :: byte) = 0x80 + ?l"
      by (rule unat_byte_of_nat) simp
    show ?thesis using h
      by (simp add: b first_char_def is_cont_def cont_bits_def word_less_nat_alt
          word_le_nat_alt ub ul del: of_nat_add)
  next
    case three
    let ?h = "c div 4096" and ?m = "c div 64 mod 64" and ?l = "c mod 64"
    have b: "b = of_nat (0xE0 + ?h)" "bs = [of_nat (0x80 + ?m), of_nat (0x80 + ?l)]"
      using assms three by (auto simp: encode_char_def)
    have h: "?h < 16" using three by simp
    have ub: "unat (of_nat (0xE0 + ?h) :: byte) = 0xE0 + ?h"
      by (rule unat_byte_of_nat) (use h in simp)
    have um: "unat (of_nat (0x80 + ?m) :: byte) = 0x80 + ?m"
      by (rule unat_byte_of_nat) simp
    have ul: "unat (of_nat (0x80 + ?l) :: byte) = 0x80 + ?l"
      by (rule unat_byte_of_nat) simp
    have "c div 64 = 64 * (c div 64 div 64) + ?m" by simp
    moreover have "c div 64 div 64 = ?h" by (simp add: div_mult2_eq[symmetric])
    moreover have "c = 64 * (c div 64) + ?l" by simp
    ultimately have c: "?h * 4096 + ?m * 64 + ?l = c" by linarith
    show ?thesis using h three
      by (simp add: b first_char_def is_cont_def cont_bits_def word_less_nat_alt
          word_le_nat_alt ub um ul c Let_def del: of_nat_add)
  next
    case four
    let ?h = "c div 262144" and ?m1 = "c div 4096 mod 64" and ?m2 = "c div 64 mod 64"
    let ?l = "c mod 64"
    have b: "b = of_nat (0xF0 + ?h)"
      "bs = [of_nat (0x80 + ?m1), of_nat (0x80 + ?m2), of_nat (0x80 + ?l)]"
      using assms four by (auto simp: encode_char_def)
    have h: "?h < 5" using four by simp
    have ub: "unat (of_nat (0xF0 + ?h) :: byte) = 0xF0 + ?h"
      by (rule unat_byte_of_nat) (use h in simp)
    have um1: "unat (of_nat (0x80 + ?m1) :: byte) = 0x80 + ?m1"
      by (rule unat_byte_of_nat) simp
    have um2: "unat (of_nat (0x80 + ?m2) :: byte) = 0x80 + ?m2"
      by (rule unat_byte_of_nat) simp
    have ul: "unat (of_nat (0x80 + ?l) :: byte) = 0x80 + ?l"
      by (rule unat_byte_of_nat) simp
    have "c div 4096 = 64 * (c div 4096 div 64) + ?m1" by simp
    moreover have "c div 4096 div 64 = ?h" by (simp add: div_mult2_eq[symmetric])
    moreover have "c div 64 = 64 * (c div 64 div 64) + ?m2" by simp
    moreover have "c div 64 div 64 = c div 4096" by (simp add: div_mult2_eq[symmetric])
    moreover have "c = 64 * (c div 64) + ?l" by simp
    ultimately have c: "?h * 262144 + ?m1 * 4096 + ?m2 * 64 + ?l = c" by linarith
    show ?thesis using h four
      by (simp add: b first_char_def is_cont_def cont_bits_def word_less_nat_alt
          word_le_nat_alt ub um1 um2 ul c Let_def del: of_nat_add)
  qed
qed

lemma encode_char_nonempty: "encode_char c = Inr bs \<Longrightarrow> bs \<noteq> []"
  by (auto simp: encode_char_def split: if_splits)

text \<open>The model of UTF-8: what \<open>encode\<close> returns, \<open>decode\<close> reads back.\<close>

lemma decode_encode: "encode s = Inr bs \<Longrightarrow> decode bs = Inr s"
proof (induction s arbitrary: bs)
  case Nil
  then show ?case by simp
next
  case (Cons c s)
  from Cons.prems obtain cb sb where cb: "encode_char c = Inr cb" and sb: "encode s = Inr sb"
    and bs: "bs = cb @ sb"
    by (auto split: sum.splits)
  from encode_char_nonempty[OF cb] obtain b r where r: "cb = b # r" by (cases cb) auto
  have "first_char b (r @ sb) = Some (c, length r)"
    using first_char_encode_char cb r by simp
  then show ?case using Cons.IH[OF sb]
    by (simp add: bs r push_char_def)
qed

lemma encode_ascii: "is_ascii s \<Longrightarrow> encode s = Inr (map of_nat s)"
  by (induction s) (auto simp: is_ascii_def encode_char_def)

lemma decode_ascii: "is_ascii s \<Longrightarrow> decode (map of_nat s) = Inr s"
proof (induction s)
  case Nil
  then show ?case by simp
next
  case (Cons c s)
  then have c: "c < 128" and s: "is_ascii s" by (auto simp: is_ascii_def)
  have "(of_nat c :: byte) < 0x80" using c
    by (simp add: word_less_nat_alt unat_of_nat)
  moreover have "unat (of_nat c :: byte) = c" using c by (simp add: unat_of_nat)
  ultimately show ?case using Cons.IH[OF s]
    by (simp add: first_char_def push_char_def)
qed

lemma encode_kv_ascii:
  assumes "is_ascii key" "is_ascii val"
    and "encode_header t (int (length key)) (int (length val)) = Inr header"
  shows "encode_kv t key val =
           Inr (12 + length key + length val, header @ map of_nat key @ map of_nat val)"
  using assms
  by (simp add: encode_kv_def encode_ascii pack_ss_def pack_s_exact encode_header_Inr(1))

lemma decode_kv_record:
  assumes "encode_header t (int n) (int m) = Inr header" "length kb = n" "length vb = m"
  shows "decode_kv (header @ kb @ vb) =
           (case decode kb of Inl e \<Rightarrow> Inl e
            | Inr k \<Rightarrow> (case decode vb of Inl e \<Rightarrow> Inl e | Inr v \<Rightarrow> Inr (t, k, v)))"
  using assms encode_header_Inr[OF assms(1)]
  by (simp add: decode_kv_def HEADER_SIZE_def unpack_ss_def)

text \<open>
  The round-trip of the codec on ASCII strings, where the number of characters is the
  number of bytes.
\<close>

lemma decode_encode_kv_ascii:
  assumes "is_ascii key" "is_ascii val" "encode_kv t key val = Inr (n, data)"
  shows "decode_kv data = Inr (t, key, val)"
proof -
  from encode_kv_Inr[OF assms(3)] obtain header where
    h: "encode_header t (int (length key)) (int (length val)) = Inr header"
    by blast
  have "data = header @ map of_nat key @ map of_nat val"
    using assms(3) encode_kv_ascii[OF assms(1,2) h] by simp
  then show ?thesis
    using decode_kv_record[OF h, of "map of_nat key" "map of_nat val"] assms(1,2)
    by (simp add: decode_ascii)
qed

text \<open>
  Claim C1 (codec round-trip, for every timestamp of 32 bits and all text): the code
  breaks it on text with a character outside ASCII.  For the key U+00E9 and the value
  \<open>v\<close>, \<open>encode_kv\<close> returns a record whose key field is the first byte of the two that
  encode the key, and \<open>decode_kv\<close> raises \<open>UnicodeDecodeError\<close> on these bytes; for the key
  of the two characters U+00E9 and \<open>a\<close>, the key field holds the two bytes of U+00E9 and
  \<open>decode_kv\<close> returns the key U+00E9, one character short.
\<close>

theorem encode_kv_decode_kv_non_ascii:
  "encode_kv 0 [0xE9] (str_of ''v'')
     = Inr (14, [0,0,0,0, 1,0,0,0, 1,0,0,0, 0xC3, 0x76])
   \<and> decode_kv [0,0,0,0, 1,0,0,0, 1,0,0,0, 0xC3, 0x76] = Inl UnicodeDecodeError
   \<and> encode_kv 0 [0xE9, 0x61] (str_of ''v'')
     = Inr (15, [0,0,0,0, 2,0,0,0, 1,0,0,0, 0xC3, 0xA9, 0x76])
   \<and> decode_kv [0,0,0,0, 2,0,0,0, 1,0,0,0, 0xC3, 0xA9, 0x76] = Inr (0, [0xE9], str_of ''v'')"
  by (simp add: codec_defs)

text \<open>
  Claim C2 (the total length is 12 plus the byte lengths of the encoded key and value, and
  the header's size fields are these byte lengths, not the character counts): the code
  counts characters.  The key U+00E9 is encoded in two bytes; \<open>encode_kv\<close> returns the total
  length 13 for it with an empty value, and a header whose key size is 1.
\<close>

theorem encode_kv_sizes_count_characters:
  "encode [0xE9] = Inr [0xC3, 0xA9]
   \<and> encode_kv 0 [0xE9] [] = Inr (13, [0,0,0,0, 1,0,0,0, 0,0,0,0, 0xC3])
   \<and> decode_header [0,0,0,0, 1,0,0,0, 0,0,0,0] = Inr (0, 1, 0)"
  by (simp add: codec_defs)

section \<open>The store\<close>

subsection \<open>\<open>set\<close> and \<open>get\<close>\<close>

text \<open>On an open file, \<open>set\<close> succeeds whenever \<open>encode_kv\<close> does, and appends.\<close>

lemma DiskStorage_set_open:
  assumes "\<not> closed (file_store s)" "encode_kv now key val = Inr (n, data)"
  shows "DiskStorage_set s now key val =
           (Inr (), s\<lparr>file_store := (file_store s)\<lparr>contents := contents (file_store s) @ data,
                                      position := length (contents (file_store s)) + n\<rparr>,
                      key_dir := (key_dir s)(key \<mapsto> length (contents (file_store s)))\<rparr>)"
proof -
  from encode_kv_Inr[OF assms(2)] have "n = length data" "data \<noteq> []" by auto
  then show ?thesis using assms
    by (simp add: DiskStorage_set_def f_seek_end_def f_tell_def f_write_def)
qed

text \<open>
  Reading a record through the index: when the bytes at the offset of a key are a record
  that \<open>encode_kv\<close> returned for ASCII strings, \<open>get\<close> returns the value of the record.
\<close>

lemma DiskStorage_get_record:
  assumes "\<not> closed (file_store s)" and "key_dir s key = Some off"
    and "is_ascii k" "is_ascii v" "encode_kv t k v = Inr (n, data)"
    and "take n (drop off (contents (file_store s))) = data"
  shows "fst (DiskStorage_get s key) = Inr v"
proof -
  from encode_kv_Inr[OF assms(5)] obtain header where
    h: "encode_header t (int (length k)) (int (length v)) = Inr header"
    by blast
  have n: "n = 12 + length k + length v"
    and d: "data = header @ map of_nat k @ map of_nat v"
    using assms(5) encode_kv_ascii[OF assms(3,4) h] by simp_all
  have lh: "length header = 12"
    and dh: "decode_header header = Inr (t, int (length k), int (length v))"
    using encode_header_Inr[OF h] by simp_all
  let ?c = "contents (file_store s)"
  have len: "off + n \<le> length ?c"
  proof -
    have "length (take n (drop off ?c)) = n" using assms(6) encode_kv_Inr[OF assms(5)] by auto
    then show ?thesis using n by (simp add: min_def split: if_splits)
  qed
  have t12: "take 12 (drop off ?c) = header"
  proof -
    have "take 12 (take n (drop off ?c)) = header" unfolding assms(6) by (simp add: d lh)
    then show ?thesis by (simp add: n min_def)
  qed
  have body: "take (length k + length v) (drop (off + 12) ?c) = map of_nat k @ map of_nat v"
  proof -
    have "drop 12 (take n (drop off ?c)) = map of_nat k @ map of_nat v"
      unfolding assms(6) by (simp add: d lh)
    then show ?thesis by (simp add: n drop_take add.commute)
  qed
  have dk: "decode_kv (header @ map of_nat k @ map of_nat v) = Inr (t, k, v)"
    using decode_encode_kv_ascii[OF assms(3,4,5)] d by simp
  show ?thesis
    using assms(1,2) len
    by (simp add: DiskStorage_get_def f_seek_def f_read_def HEADER_SIZE_def Let_def
        t12 dh lh body dk nat_add_distrib n)
qed

lemma DiskStorage_get_position:
  "fst (DiskStorage_get (s\<lparr>file_store := (file_store s)\<lparr>position := p\<rparr>\<rparr>) key)
     = fst (DiskStorage_get s key)"
  by (auto simp: DiskStorage_get_def f_seek_def f_read_def Let_def
      split: option.splits sum.splits prod.splits)

subsection \<open>Opening\<close>

lemma DiskStorage_init_absent:
  "DiskStorage_init None =
     Inr \<lparr>file_store = \<lparr>contents = [], position = 0, closed = False\<rparr>, key_dir = Map.empty\<rparr>"
  by (simp add: DiskStorage_init_def DiskStorage_init_db_def f_seek_end_def f_tell_def)

lemma DiskStorage_init_below_10:
  "length b < 10 \<Longrightarrow>
     DiskStorage_init (Some b) =
       Inr \<lparr>file_store = \<lparr>contents = b, position = length b, closed = False\<rparr>,
            key_dir = Map.empty\<rparr>"
  by (simp add: DiskStorage_init_def DiskStorage_init_db_def f_seek_end_def f_tell_def)

lemma unpack_I_nonneg: "0 \<le> unpack_I bs"
  unfolding unpack_I_def by (induction bs) simp_all

lemma decode_header_nonneg:
  "decode_header h = Inr (t, k, v) \<Longrightarrow> 0 \<le> t \<and> 0 \<le> k \<and> 0 \<le> v"
  by (auto simp: decode_header_def unpack_III_def unpack_I_nonneg split: if_splits)

lemma decode_header_length:
  "decode_header h = Inr x \<Longrightarrow> length h = 12"
  by (simp add: decode_header_def unpack_III_def split: if_splits)

lemma decode_header_wrong_length:
  "length h \<noteq> 12 \<Longrightarrow> decode_header h = Inl StructError"
  by (simp add: decode_header_def unpack_III_def)

lemma decode_kv_wrong_size:
  assumes "decode_header hb = Inr (t, k_sz, v_sz)" "length body \<noteq> nat k_sz + nat v_sz"
  shows "decode_kv (hb @ body) = Inl StructError"
  using assms decode_header_length[OF assms(1)]
  by (simp add: decode_kv_def HEADER_SIZE_def unpack_ss_def)

lemma scan_loop_truncated_header:
  assumes "\<not> closed (file_store s)" "position (file_store s) = p"
    and "p < n" "length (contents (file_store s)) < p + 12"
  shows "fst (scan_loop p n s) = Inl StructError"
proof -
  let ?hb = "take 12 (drop p (contents (file_store s)))"
  have "length ?hb \<noteq> 12" using assms(4) by simp
  then have "decode_header ?hb = Inl StructError"
    by (rule decode_header_wrong_length)
  then show ?thesis using assms(1,2,3)
    by (subst scan_loop.simps) (simp add: f_read_def HEADER_SIZE_def Let_def)
qed

lemma scan_loop_truncated_body:
  assumes "\<not> closed (file_store s)" "position (file_store s) = p"
    and "p < n" "p + 12 \<le> length (contents (file_store s))"
    and "decode_header (take 12 (drop p (contents (file_store s)))) = Inr (t, k_sz, v_sz)"
    and "length (contents (file_store s)) < p + 12 + nat (k_sz + v_sz)"
  shows "fst (scan_loop p n s) = Inl StructError"
proof -
  let ?c = "contents (file_store s)"
  let ?hb = "take 12 (drop p ?c)"
  let ?body = "take (nat (k_sz + v_sz)) (drop (p + 12) ?c)"
  have "0 \<le> k_sz" "0 \<le> v_sz"
    using decode_header_nonneg[OF assms(5)] by simp_all
  then have sz: "nat (k_sz + v_sz) = nat k_sz + nat v_sz" by (simp add: nat_add_distrib)
  have lh: "length ?hb = 12" using assms(4) by simp
  have "length ?body \<noteq> nat k_sz + nat v_sz" using assms(4,6) sz by simp
  then have dk: "decode_kv (?hb @ ?body) = Inl StructError"
    by (rule decode_kv_wrong_size[OF assms(5)])
  show ?thesis using assms(1,2,3) lh
    by (subst scan_loop.simps)
       (simp add: f_read_def HEADER_SIZE_def Let_def assms(5) dk del: length_take)
qed


lemma valid_entry_encode_kv:
  assumes "valid_entry (t, k, v)"
  shows "\<exists>header. encode_header t (int (length k)) (int (length v)) = Inr header
           \<and> encode_kv t k v = Inr (12 + length k + length v, record_of (t, k, v))
           \<and> record_of (t, k, v) = header @ map of_nat k @ map of_nat v
           \<and> length (record_of (t, k, v)) = 12 + length k + length v"
proof -
  from assms have a: "is_ascii k" "is_ascii v" and r: "0 \<le> t" "t < 2 ^ 32"
    and l: "length k < 2 ^ 32" "length v < 2 ^ 32"
    by (auto simp: valid_entry_def)
  have "int (length k) < 2 ^ 32" "int (length v) < 2 ^ 32"
    using l by (simp_all only: of_nat_less_numeral_power_cancel_iff)
  with r obtain header where
    h: "encode_header t (int (length k)) (int (length v)) = Inr header"
    using encode_header_in_range[of t "int (length k)" "int (length v)"] by auto
  show ?thesis
    using encode_kv_ascii[OF a h] h encode_header_Inr(1)[OF h]
    by (simp add: record_of_def)
qed

lemma scan_loop_record:
  assumes "\<not> closed (file_store s)" "position (file_store s) = p" "p < n"
    and "valid_entry (t, k, v)"
    and "take (length (record_of (t, k, v))) (drop p (contents (file_store s)))
           = record_of (t, k, v)"
  shows "scan_loop p n s =
           scan_loop (p + length (record_of (t, k, v))) n
             (s\<lparr>key_dir := (key_dir s)(k \<mapsto> p),
                file_store := (file_store s)\<lparr>position := p + length (record_of (t, k, v))\<rparr>\<rparr>)"
proof -
  let ?c = "contents (file_store s)"
  let ?r = "record_of (t, k, v)"
  from valid_entry_encode_kv[OF assms(4)] obtain header where
    h: "encode_header t (int (length k)) (int (length v)) = Inr header"
    and e: "encode_kv t k v = Inr (12 + length k + length v, ?r)"
    and r: "?r = header @ map of_nat k @ map of_nat v"
    and lr: "length ?r = 12 + length k + length v"
    by blast
  from assms(4) have a: "is_ascii k" "is_ascii v" by (auto simp: valid_entry_def)
  have lh: "length header = 12"
    and dh: "decode_header header = Inr (t, int (length k), int (length v))"
    using encode_header_Inr[OF h] by simp_all
  have len: "p + (12 + length k + length v) \<le> length ?c"
  proof -
    have "length (take (length ?r) (drop p ?c)) = length ?r" using assms(5) by simp
    then show ?thesis using lr by (simp add: min_def split: if_splits)
  qed
  have t12: "take 12 (drop p ?c) = header"
  proof -
    have "take 12 (take (length ?r) (drop p ?c)) = header"
      unfolding assms(5) by (simp add: r lh)
    then show ?thesis by (simp add: lr min_def)
  qed
  have body: "take (length k + length v) (drop (p + 12) ?c) = map of_nat k @ map of_nat v"
  proof -
    have "drop 12 (take (length ?r) (drop p ?c)) = map of_nat k @ map of_nat v"
      unfolding assms(5) by (simp add: r lh)
    then show ?thesis by (simp add: lr drop_take add.commute)
  qed
  have dk: "decode_kv (header @ map of_nat k @ map of_nat v) = Inr (t, k, v)"
    using decode_encode_kv_ascii[OF a e] r by simp
  show ?thesis
    using assms(1,2,3) len
    by (subst scan_loop.simps)
       (simp add: f_read_def f_seek_def HEADER_SIZE_def Let_def t12 dh lh body dk
          nat_add_distrib lr add.assoc)
qed


lemma scan_loop_log_prefix:
  assumes "list_all valid_entry es" "\<not> closed (file_store s)"
    and "position (file_store s) = length pre"
    and "contents (file_store s) = pre @ log_of es @ suf"
  shows "scan_loop (length pre) (length (pre @ log_of es @ suf)) s =
           scan_loop (length (pre @ log_of es)) (length (pre @ log_of es @ suf))
             (s\<lparr>key_dir := index_from (length pre) es (key_dir s),
                file_store := (file_store s)\<lparr>position := length (pre @ log_of es)\<rparr>\<rparr>)"
  using assms
proof (induction es arbitrary: pre s)
  case Nil
  from Nil.prems(3) have "(file_store s)\<lparr>position := length pre\<rparr> = file_store s"
    by (cases "file_store s") auto
  then show ?case by simp
next
  case (Cons e es)
  obtain t k v where e: "e = (t, k, v)" by (cases e) auto
  let ?r = "record_of (t, k, v)"
  let ?n = "length (pre @ log_of (e # es) @ suf)"
  from Cons.prems(1) have v: "valid_entry (t, k, v)" and vs: "list_all valid_entry es"
    by (simp_all add: e)
  have lr: "length ?r = 12 + length k + length v"
    using valid_entry_encode_kv[OF v] by blast
  let ?s' = "s\<lparr>key_dir := (key_dir s)(k \<mapsto> length pre),
               file_store := (file_store s)\<lparr>position := length pre + length ?r\<rparr>\<rparr>"
  have step: "scan_loop (length pre) ?n s = scan_loop (length pre + length ?r) ?n ?s'"
    by (rule scan_loop_record[OF Cons.prems(2,3) _ v])
       (simp_all add: Cons.prems(4) e lr)
  have "scan_loop (length (pre @ ?r)) (length ((pre @ ?r) @ log_of es @ suf)) ?s' =
          scan_loop (length ((pre @ ?r) @ log_of es)) (length ((pre @ ?r) @ log_of es @ suf))
            (?s'\<lparr>key_dir := index_from (length (pre @ ?r)) es (key_dir ?s'),
                  file_store := (file_store ?s')\<lparr>position :=
                    length ((pre @ ?r) @ log_of es)\<rparr>\<rparr>)"
    by (rule Cons.IH[OF vs]) (simp_all add: Cons.prems e)
  then show ?case
    unfolding step by (simp add: e)
qed

lemma scan_loop_log:
  assumes "list_all valid_entry es" "\<not> closed (file_store s)"
    and "position (file_store s) = length pre"
    and "contents (file_store s) = pre @ log_of es"
  shows "scan_loop (length pre) (length (pre @ log_of es)) s =
           (Inr (), s\<lparr>key_dir := index_from (length pre) es (key_dir s),
                      file_store := (file_store s)\<lparr>position := length (pre @ log_of es)\<rparr>\<rparr>)"
  using scan_loop_log_prefix[OF assms(1,2,3), of "[]"] assms(4)
  by (simp add: scan_loop.simps[of "length pre + length (log_of es)"])

lemma length_log_of_Cons: "valid_entry e \<Longrightarrow> 12 \<le> length (log_of (e # es))"
  using valid_entry_encode_kv[of "fst e" "fst (snd e)" "snd (snd e)"] by auto

text \<open>Opening a log of well-formed ASCII records rebuilds the index of the log.\<close>

lemma DiskStorage_init_log:
  assumes "list_all valid_entry es"
  shows "DiskStorage_init (Some (log_of es)) =
           Inr \<lparr>file_store = \<lparr>contents = log_of es, position = length (log_of es),
                               closed = False\<rparr>,
                key_dir = index_from 0 es Map.empty\<rparr>"
proof (cases es)
  case Nil
  then show ?thesis
    by (simp add: DiskStorage_init_def DiskStorage_init_db_def f_seek_end_def f_tell_def)
next
  case (Cons e es')
  then have "12 \<le> length (log_of es)" using assms length_log_of_Cons by simp
  then have big: "\<not> length (log_of es) < 10" by simp
  let ?s = "\<lparr>file_store = \<lparr>contents = log_of es, position = 0, closed = False\<rparr>,
             key_dir = Map.empty\<rparr>"
  have "scan_loop (length ([]::bytes)) (length ([] @ log_of es)) ?s =
          (Inr (), ?s\<lparr>key_dir := index_from (length ([]::bytes)) es (key_dir ?s),
                      file_store := (file_store ?s)\<lparr>position := length ([] @ log_of es)\<rparr>\<rparr>)"
    by (rule scan_loop_log[OF assms]) simp_all
  then show ?thesis using big
    by (simp add: DiskStorage_init_def DiskStorage_init_db_def f_seek_end_def f_tell_def
        f_seek_def)
qed

text \<open>A sequence of \<open>set\<close> calls with well-formed ASCII entries appends their log.\<close>

lemma set_all_log:
  assumes "list_all valid_entry es" "\<not> closed (file_store s)"
  shows "\<exists>s'. set_all s es = (Inr (), s')
           \<and> contents (file_store s') = contents (file_store s) @ log_of es
           \<and> key_dir s' = index_from (length (contents (file_store s))) es (key_dir s)
           \<and> \<not> closed (file_store s')"
  using assms
proof (induction es arbitrary: s)
  case Nil
  then show ?case by simp
next
  case (Cons e es)
  obtain t k v where e: "e = (t, k, v)" by (cases e) auto
  from Cons.prems(1) have v: "valid_entry (t, k, v)" and vs: "list_all valid_entry es"
    by (simp_all add: e)
  from valid_entry_encode_kv[OF v] have
    enc: "encode_kv t k v = Inr (12 + length k + length v, record_of (t, k, v))"
    by blast
  let ?s1 = "s\<lparr>file_store := (file_store s)\<lparr>contents := contents (file_store s) @ record_of (t, k, v),
                 position := length (contents (file_store s)) + (12 + length k + length v)\<rparr>,
               key_dir := (key_dir s)(k \<mapsto> length (contents (file_store s)))\<rparr>"
  have s1: "DiskStorage_set s t k v = (Inr (), ?s1)"
    by (rule DiskStorage_set_open[OF Cons.prems(2) enc])
  have "\<not> closed (file_store ?s1)" using Cons.prems(2) by simp
  from Cons.IH[OF vs this] obtain s' where
    "set_all ?s1 es = (Inr (), s')"
    "contents (file_store s') = contents (file_store ?s1) @ log_of es"
    "key_dir s' = index_from (length (contents (file_store ?s1))) es (key_dir ?s1)"
    "\<not> closed (file_store s')"
    by blast
  then show ?case
    by (intro exI[of _ s']) (simp add: e s1)
qed


lemma log_of_append: "log_of (xs @ ys) = log_of xs @ log_of ys"
  by (induction xs) simp_all

lemma index_from_no_entry:
  "last_value es key = None \<Longrightarrow> index_from off es m key = m key"
  by (induction es arbitrary: off m) (auto split: option.splits if_splits)

lemma index_from_last_entry:
  "last_value es key = Some v \<Longrightarrow>
     \<exists>es1 t es2. es = es1 @ (t, key, v) # es2 \<and> last_value es2 key = None
        \<and> index_from off es m key = Some (off + length (log_of es1))"
proof (induction es arbitrary: off m)
  case Nil
  then show ?case by simp
next
  case (Cons e es)
  show ?case
  proof (cases "last_value es key")
    case None
    with Cons.prems have k: "fst (snd e) = key" and v: "snd (snd e) = v"
      by (auto split: if_splits)
    then have "e = (fst e, key, v)" by (cases e) auto
    then have "e # es = [] @ (fst e, key, v) # es" by simp
    moreover have "index_from off (e # es) m key = Some (off + length (log_of []))"
      using None k by (simp add: index_from_no_entry)
    ultimately show ?thesis using None by blast
  next
    case (Some v')
    with Cons.prems have "v' = v" by simp
    with Some Cons.IH[of "off + length (record_of e)" "m(fst (snd e) \<mapsto> off)"]
    obtain es1 t es2 where es: "es = es1 @ (t, key, v) # es2"
      and n: "last_value es2 key = None"
      and i: "index_from (off + length (record_of e)) es (m(fst (snd e) \<mapsto> off)) key
                = Some (off + length (record_of e) + length (log_of es1))"
      by blast
    have "e # es = (e # es1) @ (t, key, v) # es2" using es by simp
    moreover have "index_from off (e # es) m key = Some (off + length (log_of (e # es1)))"
      using i by (simp add: add.assoc)
    ultimately show ?thesis using n by blast
  qed
qed

text \<open>
  After a log of well-formed ASCII entries, \<open>get\<close> returns for each key the value of the
  last entry of the key.
\<close>

lemma DiskStorage_get_log:
  assumes "list_all valid_entry es" "\<not> closed (file_store s)"
    and "contents (file_store s) = pre @ log_of es"
    and "key_dir s = index_from (length pre) es m"
    and "last_value es key = Some v"
  shows "fst (DiskStorage_get s key) = Inr v"
proof -
  from index_from_last_entry[OF assms(5), of "length pre" m]
  obtain es1 t es2 where es: "es = es1 @ (t, key, v) # es2"
    and i: "index_from (length pre) es m key = Some (length pre + length (log_of es1))"
    by blast
  have v: "valid_entry (t, key, v)" using assms(1) es by simp
  then have a: "is_ascii key" "is_ascii v" by (auto simp: valid_entry_def)
  from valid_entry_encode_kv[OF v] have
    enc: "encode_kv t key v = Inr (12 + length key + length v, record_of (t, key, v))"
    and lr: "length (record_of (t, key, v)) = 12 + length key + length v"
    by blast+
  have c: "contents (file_store s) =
             (pre @ log_of es1) @ record_of (t, key, v) @ log_of es2"
    using assms(3) es by (simp add: log_of_append)
  have "take (12 + length key + length v)
          (drop (length pre + length (log_of es1)) (contents (file_store s)))
        = record_of (t, key, v)"
    unfolding c using lr by simp
  with DiskStorage_get_record[OF assms(2) _ a enc] i assms(4) show ?thesis by simp
qed

text \<open>
  Closing a store that wrote well-formed ASCII entries to a fresh file and opening the
  file again gives the same index, and \<open>get\<close> returns what it returned before.
\<close>

lemma reopen_ascii:
  assumes "list_all valid_entry es"
  shows "\<exists>s0 s1 s2 s3. DiskStorage_init None = Inr s0
           \<and> set_all s0 es = (Inr (), s1)
           \<and> DiskStorage_close s1 = (Inr (), s2)
           \<and> DiskStorage_init (Some (contents (file_store s2))) = Inr s3
           \<and> key_dir s3 = key_dir s1
           \<and> contents (file_store s3) = contents (file_store s1)
           \<and> (\<forall>key. fst (DiskStorage_get s3 key) = fst (DiskStorage_get s1 key))"
proof -
  let ?s0 = "\<lparr>file_store = \<lparr>contents = [], position = 0, closed = False\<rparr>,
              key_dir = Map.empty\<rparr>"
  have s0: "DiskStorage_init None = Inr ?s0" by (rule DiskStorage_init_absent)
  from set_all_log[OF assms, of ?s0] obtain s1 where
    s1: "set_all ?s0 es = (Inr (), s1)"
    and c1: "contents (file_store s1) = log_of es"
    and k1: "key_dir s1 = index_from 0 es Map.empty"
    and o1: "\<not> closed (file_store s1)"
    by auto
  let ?s2 = "s1\<lparr>file_store := (file_store s1)\<lparr>closed := True\<rparr>\<rparr>"
  have s2: "DiskStorage_close s1 = (Inr (), ?s2)"
    by (simp add: DiskStorage_close_def f_close_def)
  let ?s3 = "\<lparr>file_store = \<lparr>contents = log_of es, position = length (log_of es),
                             closed = False\<rparr>,
              key_dir = index_from 0 es Map.empty\<rparr>"
  have s3: "DiskStorage_init (Some (contents (file_store ?s2))) = Inr ?s3"
    using DiskStorage_init_log[OF assms] by (simp add: c1)
  have "?s3 = s1\<lparr>file_store := (file_store s1)\<lparr>position := length (log_of es)\<rparr>\<rparr>"
    using c1 k1 o1 by (cases s1; cases "file_store s1") simp
  then have "\<forall>key. fst (DiskStorage_get ?s3 key) = fst (DiskStorage_get s1 key)"
    by (simp only: DiskStorage_get_position) simp
  then show ?thesis
    using s0 s1 s2 s3 c1 k1 by (intro exI[of _ ?s0] exI[of _ s1] exI[of _ ?s2] exI[of _ ?s3]) simp
qed


text \<open>
  A log of well-formed ASCII records followed by a record cut short: opening raises
  \<open>struct.error\<close>, provided the file has at least 10 bytes.
\<close>

lemma DiskStorage_init_truncated:
  assumes "list_all valid_entry es" "valid_entry e"
    and "0 < j" "j < length (record_of e)" "10 \<le> length (log_of es) + j"
  shows "DiskStorage_init (Some (log_of es @ take j (record_of e))) = Inl StructError"
proof -
  obtain t k v where e: "e = (t, k, v)" by (cases e) auto
  let ?tail = "take j (record_of e)"
  let ?b = "log_of es @ ?tail"
  let ?s = "\<lparr>file_store = \<lparr>contents = ?b, position = 0, closed = False\<rparr>,
             key_dir = Map.empty\<rparr>"
  let ?s' = "?s\<lparr>key_dir := index_from (length ([]::bytes)) es (key_dir ?s),
               file_store := (file_store ?s)\<lparr>position := length ([] @ log_of es)\<rparr>\<rparr>"
  let ?p = "length (log_of es)"
  from valid_entry_encode_kv[OF assms(2)[unfolded e]] obtain header where
    h: "encode_header t (int (length k)) (int (length v)) = Inr header"
    and r: "record_of e = header @ map of_nat k @ map of_nat v"
    and lr: "length (record_of e) = 12 + length k + length v"
    unfolding e by blast
  have lh: "length header = 12"
    and dh: "decode_header header = Inr (t, int (length k), int (length v))"
    using encode_header_Inr[OF h] by simp_all
  have lt: "length ?tail = j" using assms(4) by simp
  have scan: "scan_loop 0 (length ?b) ?s = scan_loop ?p (length ?b) ?s'"
    using scan_loop_log_prefix[OF assms(1), of ?s "[]" ?tail] by simp
  have "fst (scan_loop ?p (length ?b) ?s') = Inl StructError"
  proof (cases "j < 12")
    case True
    show ?thesis
      by (rule scan_loop_truncated_header) (use True assms(3) lt in simp_all)
  next
    case False
    then have "take 12 ?tail = header" using assms(4) by (simp add: r lh min_def)
    then have "decode_header (take 12 (drop ?p (contents (file_store ?s'))))
                 = Inr (t, int (length k), int (length v))"
      using dh by simp
    then show ?thesis
      by (rule scan_loop_truncated_body[rotated 4])
         (use False assms(3,4) lt lr in \<open>simp_all add: nat_add_distrib\<close>)
  qed
  then obtain x where res: "scan_loop ?p (length ?b) ?s' = (Inl StructError, x)"
    by (cases "scan_loop ?p (length ?b) ?s'") auto
  have "DiskStorage_init_db ?s = scan_loop 0 (length ?b) ?s"
    using assms(5) lt
    by (simp add: DiskStorage_init_db_def f_seek_end_def f_tell_def f_seek_def)
  then have "DiskStorage_init_db ?s = (Inl StructError, x)"
    using scan res by simp
  then show ?thesis
    by (simp add: DiskStorage_init_def)
qed

section \<open>The claims on the store\<close>

text \<open>
  Claim C3 (opening: a file shorter than one header, 12 bytes, gives an empty index; a
  longer file that is not a sequence of whole records makes opening fail, and no index is
  returned): \<open>__init_db\<close> compares the size of the file with 10, not with the size of a
  header.  Every file of 10 or of 11 bytes enters the scan, whose first read returns
  fewer than 12 bytes, and \<open>decode_header\<close> raises \<open>struct.error\<close>: opening fails where the
  claim has an empty index.  Files below 10 bytes are opened with an empty index
  (\<open>DiskStorage_init_below_10\<close>), and a record cut short raises \<open>struct.error\<close>
  (\<open>scan_loop_truncated_header\<close>, \<open>scan_loop_truncated_body\<close>,
  \<open>DiskStorage_init_truncated\<close>).
\<close>

theorem init_below_header_size_raises:
  assumes "10 \<le> length b" "length b < 12"
  shows "DiskStorage_init (Some b) = Inl StructError"
proof -
  let ?s = "\<lparr>file_store = \<lparr>contents = b, position = 0, closed = False\<rparr>,
             key_dir = Map.empty\<rparr>"
  have "fst (scan_loop 0 (length b) ?s) = Inl StructError"
    by (rule scan_loop_truncated_header) (use assms in auto)
  then obtain x where res: "scan_loop 0 (length b) ?s = (Inl StructError, x)"
    by (cases "scan_loop 0 (length b) ?s") auto
  have "DiskStorage_init_db ?s = scan_loop 0 (length b) ?s"
    using assms(1)
    by (simp add: DiskStorage_init_db_def f_seek_end_def f_tell_def f_seek_def)
  then show ?thesis
    using res by (simp add: DiskStorage_init_def)
qed

text \<open>Two such files: ten and eleven null bytes.\<close>

theorem init_ten_byte_file_raises:
  "DiskStorage_init (Some (replicate 10 0)) = Inl StructError
   \<and> DiskStorage_init (Some (replicate 11 0)) = Inl StructError"
  using init_below_header_size_raises[of "replicate 10 0"]
    init_below_header_size_raises[of "replicate 11 0"]
  by simp

text \<open>
  Claim C4 (last write wins: after \<open>set(k, v1)\<close> and \<open>set(k, v2)\<close>, \<open>get(k)\<close> returns \<open>v2\<close>,
  for every key and values): with the second value U+00E9, whose record holds the first
  of its two bytes, \<open>get\<close> raises \<open>UnicodeDecodeError\<close>.  On well-formed ASCII entries
  \<open>get\<close> returns the value of the last entry of the key (\<open>DiskStorage_get_log\<close>).
\<close>

theorem set_set_get_non_ascii_value:
  "\<exists>s0 s1 s2. DiskStorage_init None = Inr s0
     \<and> DiskStorage_set s0 0 (str_of ''k'') (str_of ''a'') = (Inr (), s1)
     \<and> DiskStorage_set s1 0 (str_of ''k'') [0xE9] = (Inr (), s2)
     \<and> fst (DiskStorage_get s2 (str_of ''k'')) = Inl UnicodeDecodeError"
  by (simp add: store_defs file_defs codec_defs Let_def)

text \<open>
  Claim C5 (a key that is not in the index: \<open>get\<close> returns a NotFound indicator, raises
  nothing, and the indicator is distinguishable from any stored value).  The indicator of
  the code is the empty string, and a stored value can be the empty string: after
  \<open>set("k", "")\<close> on a new store the stored key \<open>k\<close> and the missing key \<open>n\<close> give the same
  result.
\<close>

theorem get_missing_key_same_as_empty_value:
  "\<exists>s0 s1. DiskStorage_init None = Inr s0
     \<and> DiskStorage_set s0 0 (str_of ''k'') [] = (Inr (), s1)
     \<and> key_dir s1 (str_of ''k'') = Some 0
     \<and> key_dir s1 (str_of ''n'') = None
     \<and> fst (DiskStorage_get s1 (str_of ''k'')) = Inr []
     \<and> fst (DiskStorage_get s1 (str_of ''n'')) = Inr []"
  by (simp add: store_defs file_defs codec_defs Let_def)

text \<open>
  Claim C5 as the code has it: for every key that is not in the index, \<open>get\<close> returns the
  empty string, raises nothing and leaves the store as it is; the result differs from
  every stored value that is not empty.
\<close>

theorem get_missing_key:
  "key_dir s key = None \<Longrightarrow>
     DiskStorage_get s key = (Inr [], s)
     \<and> (\<forall>v. v \<noteq> [] \<longrightarrow> fst (DiskStorage_get s key) \<noteq> Inr v)"
  by (simp add: DiskStorage_get_def)

text \<open>The same on a store that was just created and on a store holding one key.\<close>

theorem get_missing_key_witness:
  "let s0 = projr (DiskStorage_init None);
       s1 = snd (DiskStorage_set s0 0 (str_of ''hamlet'') (str_of ''shakespeare''))
   in key_dir s0 (str_of ''nonexistent'') = None
      \<and> DiskStorage_get s0 (str_of ''nonexistent'') = (Inr [], s0)
      \<and> key_dir s1 (str_of ''hamlet'') = Some 0
      \<and> key_dir s1 (str_of ''nonexistent'') = None
      \<and> DiskStorage_get s1 (str_of ''nonexistent'') = (Inr [], s1)
      \<and> fst (DiskStorage_get s1 (str_of ''nonexistent'')) \<noteq> Inr (str_of ''shakespeare'')"
  using get_missing_key[of "projr (DiskStorage_init None)" "str_of ''nonexistent''"]
    get_missing_key[of "snd (DiskStorage_set (projr (DiskStorage_init None)) 0
       (str_of ''hamlet'') (str_of ''shakespeare''))" "str_of ''nonexistent''"]
  by (simp add: store_defs file_defs codec_defs Let_def)

text \<open>
  Claim C6 (after \<open>close\<close>, every operation, \<open>close\<close> included, fails with NotOpenError).
  The store keeps no state of its own for being closed: a second \<open>close\<close> succeeds, and
  so does \<open>get\<close> of a key that is not in the index, which does not touch the file.
\<close>

theorem close_twice_succeeds:
  "\<exists>s0 s1 s2. DiskStorage_init None = Inr s0
     \<and> DiskStorage_close s0 = (Inr (), s1)
     \<and> DiskStorage_close s1 = (Inr (), s2)
     \<and> fst (DiskStorage_get s2 (str_of ''k'')) = Inr []"
  by (simp add: store_defs file_defs codec_defs Let_def)

text \<open>
  Claim C6 as the code has it: after \<open>close\<close>, which always succeeds, \<open>set\<close> raises the
  \<open>ValueError\<close> of the closed file object, and so does \<open>get\<close> of a key in the index;
  \<open>get\<close> of a key that is not in the index returns the empty string, and \<open>close\<close>
  succeeds again and changes nothing.
\<close>

theorem operations_after_close:
  "let c = snd (DiskStorage_close s) in
     fst (DiskStorage_close s) = Inr () \<and> closed (file_store c)
     \<and> fst (DiskStorage_set c now key val) = Inl ValueError
     \<and> (key_dir c key \<noteq> None \<longrightarrow> fst (DiskStorage_get c key) = Inl ValueError)
     \<and> (key_dir c key = None \<longrightarrow> DiskStorage_get c key = (Inr [], c))
     \<and> DiskStorage_close c = (Inr (), c)"
  by (auto simp: store_defs file_defs Let_def)

text \<open>The same on a store that holds the key \<open>hamlet\<close> and not the key \<open>othello\<close>.\<close>

theorem operations_after_close_witness:
  "let s1 = snd (DiskStorage_set (projr (DiskStorage_init None)) 0
                   (str_of ''hamlet'') (str_of ''shakespeare''));
       c = snd (DiskStorage_close s1)
   in closed (file_store c)
      \<and> key_dir c (str_of ''hamlet'') = Some 0
      \<and> fst (DiskStorage_get c (str_of ''hamlet'')) = Inl ValueError
      \<and> key_dir c (str_of ''othello'') = None
      \<and> DiskStorage_get c (str_of ''othello'') = (Inr [], c)
      \<and> fst (DiskStorage_set c 0 (str_of ''othello'') (str_of ''shakespeare'')) = Inl ValueError
      \<and> DiskStorage_close c = (Inr (), c)"
  using operations_after_close[of "snd (DiskStorage_set (projr (DiskStorage_init None)) 0
                   (str_of ''hamlet'') (str_of ''shakespeare''))" 0 "str_of ''hamlet''"
                   "str_of ''shakespeare''"]
    operations_after_close[of "snd (DiskStorage_set (projr (DiskStorage_init None)) 0
                   (str_of ''hamlet'') (str_of ''shakespeare''))" 0 "str_of ''othello''"
                   "str_of ''shakespeare''"]
  by (simp add: store_defs file_defs codec_defs Let_def)

text \<open>
  Claim C7 (index invariant: for every key in the index, the record at its offset decodes
  to the key and its current value): after \<open>set\<close> of the key U+00E9 on a new store the
  index holds the key at offset 0, and the record at offset 0 does not decode: its key
  field is the first byte of the two of the key, and both \<open>decode_kv\<close> and \<open>get\<close> raise
  \<open>UnicodeDecodeError\<close>.
\<close>

theorem index_entry_not_decodable_non_ascii:
  "\<exists>s0 s1. DiskStorage_init None = Inr s0
     \<and> DiskStorage_set s0 0 [0xE9] (str_of ''v'') = (Inr (), s1)
     \<and> key_dir s1 [0xE9] = Some 0
     \<and> decode_kv (drop 0 (contents (file_store s1))) = Inl UnicodeDecodeError
     \<and> fst (DiskStorage_get s1 [0xE9]) = Inl UnicodeDecodeError"
  by (simp add: store_defs file_defs codec_defs Let_def)

text \<open>
  Claim C8 (reopening: after writing distinct keys to a new file, closing and opening it
  again, \<open>get\<close> returns for each key what it returned before): the key of the two
  characters U+00E9 and \<open>a\<close> is written with the two bytes of its first character; before
  closing \<open>get\<close> returns its value \<open>b\<close>, after reopening the scan has indexed the key
  U+00E9 instead and \<open>get\<close> returns the empty string.  For well-formed ASCII entries the
  reopened store has the same index and the same results (\<open>reopen_ascii\<close>).
\<close>

theorem reopen_loses_non_ascii_key:
  "\<exists>s0 s1 s2 s3. DiskStorage_init None = Inr s0
     \<and> DiskStorage_set s0 0 [0xE9, 0x61] (str_of ''b'') = (Inr (), s1)
     \<and> fst (DiskStorage_get s1 [0xE9, 0x61]) = Inr (str_of ''b'')
     \<and> DiskStorage_close s1 = (Inr (), s2)
     \<and> DiskStorage_init (Some (contents (file_store s2))) = Inr s3
     \<and> fst (DiskStorage_get s3 [0xE9, 0x61]) = Inr []"
  by (simp add: store_defs file_defs codec_defs scan_loop.simps Let_def)

text \<open>
  What \<open>set\<close> does on an open store when \<open>encode_kv\<close> returns a record: it succeeds, the
  record is appended at the end of the file, the index maps the key to the former end of
  the file, and the file grows by the total length \<open>encode_kv\<close> returns, which is 12 plus
  the numbers of characters of the key and of the value.  For all timestamps of 32 bits,
  after \<open>set("othello", "shakespeare")\<close> and \<open>set("hamlet", "shakespeare")\<close> on a new store
  the offset of the second record is \<open>12 + len("othello") + len("shakespeare")\<close> and
  \<open>get("othello")\<close> returns \<open>"shakespeare"\<close>.
\<close>

theorem set_appends_record:
  "(\<not> closed (file_store s) \<and> encode_kv now key val = Inr (n, data) \<longrightarrow>
      (\<exists>s' header ke ve.
          DiskStorage_set s now key val = (Inr (), s')
        \<and> contents (file_store s') = contents (file_store s) @ data
        \<and> key_dir s' = (key_dir s)(key \<mapsto> length (contents (file_store s)))
        \<and> length (contents (file_store s')) = length (contents (file_store s)) + n
        \<and> length (contents (file_store s)) < length (contents (file_store s'))
        \<and> encode key = Inr ke \<and> encode val = Inr ve
        \<and> data = header @ pack_s (length key) ke @ pack_s (length val) ve
        \<and> length header = 12
        \<and> n = 12 + length key + length val))
   \<and> (0 \<le> t1 \<and> t1 < 2 ^ 32 \<and> 0 \<le> t2 \<and> t2 < 2 ^ 32 \<longrightarrow>
      (\<exists>s0 s1 s2.
          DiskStorage_init None = Inr s0
        \<and> DiskStorage_set s0 t1 (str_of ''othello'') (str_of ''shakespeare'') = (Inr (), s1)
        \<and> DiskStorage_set s1 t2 (str_of ''hamlet'') (str_of ''shakespeare'') = (Inr (), s2)
        \<and> key_dir s2 (str_of ''hamlet'')
            = Some (12 + length (str_of ''othello'') + length (str_of ''shakespeare''))
        \<and> fst (DiskStorage_get s2 (str_of ''othello'')) = Inr (str_of ''shakespeare'')))"
proof (intro conjI impI)
  assume a: "\<not> closed (file_store s) \<and> encode_kv now key val = Inr (n, data)"
  then have o: "\<not> closed (file_store s)" and e: "encode_kv now key val = Inr (n, data)"
    by simp_all
  from encode_kv_Inr[OF e] obtain header ke ve where
    d: "data = header @ pack_s (length key) ke @ pack_s (length val) ve"
    and lh: "length header = 12"
    and ke: "encode key = Inr ke" and ve: "encode val = Inr ve"
    and n: "n = length data"
    by blast
  let ?s' = "s\<lparr>file_store := (file_store s)\<lparr>contents := contents (file_store s) @ data,
                                 position := length (contents (file_store s)) + n\<rparr>,
               key_dir := (key_dir s)(key \<mapsto> length (contents (file_store s)))\<rparr>"
  have "DiskStorage_set s now key val = (Inr (), ?s')"
    by (rule DiskStorage_set_open[OF o e])
  moreover have "n = 12 + length key + length val"
    using n d lh by (simp add: length_pack_s)
  ultimately show "\<exists>s' header ke ve.
          DiskStorage_set s now key val = (Inr (), s')
        \<and> contents (file_store s') = contents (file_store s) @ data
        \<and> key_dir s' = (key_dir s)(key \<mapsto> length (contents (file_store s)))
        \<and> length (contents (file_store s')) = length (contents (file_store s)) + n
        \<and> length (contents (file_store s)) < length (contents (file_store s'))
        \<and> encode key = Inr ke \<and> encode val = Inr ve
        \<and> data = header @ pack_s (length key) ke @ pack_s (length val) ve
        \<and> length header = 12
        \<and> n = 12 + length key + length val"
    using d lh ke ve n
    by (intro exI[of _ ?s'] exI[of _ header] exI[of _ ke] exI[of _ ve]) simp
next
  assume "0 \<le> t1 \<and> t1 < 2 ^ 32 \<and> 0 \<le> t2 \<and> t2 < 2 ^ 32"
  then show "\<exists>s0 s1 s2.
          DiskStorage_init None = Inr s0
        \<and> DiskStorage_set s0 t1 (str_of ''othello'') (str_of ''shakespeare'') = (Inr (), s1)
        \<and> DiskStorage_set s1 t2 (str_of ''hamlet'') (str_of ''shakespeare'') = (Inr (), s2)
        \<and> key_dir s2 (str_of ''hamlet'')
            = Some (12 + length (str_of ''othello'') + length (str_of ''shakespeare''))
        \<and> fst (DiskStorage_get s2 (str_of ''othello'')) = Inr (str_of ''shakespeare'')"
    by (simp add: store_defs file_defs codec_defs Let_def)
qed

text \<open>Two \<open>set\<close> calls on a new store, the second through the theorem.\<close>

theorem set_appends_record_witness:
  "\<exists>s0 s1 s2 r0 r1 r2.
      DiskStorage_init None = Inr s0
    \<and> encode_kv 1 (str_of ''k'') (str_of ''v'')
        = Inr (14, [1,0,0,0, 1,0,0,0, 1,0,0,0, 0x6B, 0x76])
    \<and> DiskStorage_set s0 1 (str_of ''k'') (str_of ''v'') = (Inr (), s1)
    \<and> contents (file_store s1) = [1,0,0,0, 1,0,0,0, 1,0,0,0, 0x6B, 0x76]
    \<and> key_dir s1 (str_of ''k'') = Some 0
    \<and> encode_kv 2 (str_of ''k2'') (str_of ''v'')
        = Inr (15, [2,0,0,0, 2,0,0,0, 1,0,0,0, 0x6B, 0x32, 0x76])
    \<and> DiskStorage_set s1 2 (str_of ''k2'') (str_of ''v'') = (Inr (), s2)
    \<and> contents (file_store s2)
        = contents (file_store s1) @ [2,0,0,0, 2,0,0,0, 1,0,0,0, 0x6B, 0x32, 0x76]
    \<and> length (contents (file_store s2)) = 14 + 15
    \<and> key_dir s2 (str_of ''k2'') = Some 14
    \<and> key_dir s2 (str_of ''k'') = Some 0
    \<and> DiskStorage_init None = Inr r0
    \<and> DiskStorage_set r0 1 (str_of ''othello'') (str_of ''shakespeare'') = (Inr (), r1)
    \<and> DiskStorage_set r1 2 (str_of ''hamlet'') (str_of ''shakespeare'') = (Inr (), r2)
    \<and> key_dir r2 (str_of ''hamlet'') = Some 30
    \<and> fst (DiskStorage_get r2 (str_of ''othello'')) = Inr (str_of ''shakespeare'')"
  using set_appends_record[of
      "\<lparr>file_store = \<lparr>contents = [1,0,0,0, 1,0,0,0, 1,0,0,0, 0x6B, 0x76], position = 14,
                        closed = False\<rparr>,
        key_dir = Map.empty(str_of ''k'' \<mapsto> 0)\<rparr>"
      2 "str_of ''k2''" "str_of ''v''" 15 "[2,0,0,0, 2,0,0,0, 1,0,0,0, 0x6B, 0x32, 0x76]" 1 2]
  by (simp add: store_defs file_defs codec_defs Let_def)

text \<open>
  Claim C9 (\<open>set\<close> appends the record at the end of the file, maps the key to the former
  end, and the file grows by the total length of the encoded record, 12 plus the bytes of
  the key plus the bytes of the value): the code appends and updates the index as the claim
  says, and the file grows by 12 plus the numbers of characters.  On a new store,
  \<open>set\<close> of the key U+00E9, two bytes in UTF-8, with the empty value is appended at offset
  0 and leaves a file of 13 bytes, where 12 plus the bytes of the encoded key and value
  is 14.
\<close>

theorem set_growth_counts_characters:
  "\<exists>s0 s1 ke ve.
      DiskStorage_init None = Inr s0
    \<and> contents (file_store s0) = []
    \<and> DiskStorage_set s0 0 [0xE9] [] = (Inr (), s1)
    \<and> key_dir s1 [0xE9] = Some 0
    \<and> encode [0xE9] = Inr ke \<and> encode [] = Inr ve
    \<and> 12 + length ke + length ve = 14
    \<and> length (contents (file_store s1)) = 13"
  by (simp add: store_defs file_defs codec_defs Let_def)

text \<open>
  Claim C10 (\<open>get\<close> reads only): for every store and key, \<open>get\<close> leaves the index, the
  contents of the file and whether it is closed as they were; the state after \<open>get\<close> is
  the state before with, at most, another position of the file.
\<close>

theorem get_read_only:
  "key_dir (snd (DiskStorage_get s key)) = key_dir s
   \<and> contents (file_store (snd (DiskStorage_get s key))) = contents (file_store s)
   \<and> closed (file_store (snd (DiskStorage_get s key))) = closed (file_store s)
   \<and> snd (DiskStorage_get s key) =
       s\<lparr>file_store := (file_store s)\<lparr>position :=
            position (file_store (snd (DiskStorage_get s key)))\<rparr>\<rparr>"
  by (auto simp: DiskStorage_get_def f_seek_def f_read_def Let_def
      split: option.splits sum.splits prod.splits if_splits)

end
